theory Spec2Isabelle
  imports Main
begin

section \<open>Python values used by estonian-validator.py\<close>

text \<open>
  A Python \<open>str\<close> is a sequence of Unicode code points, so a string is a list of
  code points (natural numbers); \<open>len\<close> is \<open>length\<close>. ASCII literals of the source
  are written \<open>u ''...''\<close>; the two letters outside ASCII that the source and the spec use
  are given by their code points: U+00F8 (o with stroke), the entry of two ending tables,
  and U+00E4 (a with diaeresis), the second letter of the word \<open>naed\<close> of the spec's
  scenario.
\<close>

type_synonym pystr = "nat list"

definition u :: "string \<Rightarrow> pystr" where
  "u s = map of_char s"

definition o_stroke :: pystr where
  "o_stroke = [248]"

definition naed :: pystr where
  "naed = u ''n'' @ [228] @ u ''ed''"

text \<open>The exceptions the operations of the source can raise.\<close>

datatype error = IndexError | ValueError | KeyError

definition bind :: "error + 'a \<Rightarrow> ('a \<Rightarrow> error + 'b) \<Rightarrow> error + 'b" where
  "bind m f = (case m of Inl e \<Rightarrow> Inl e | Inr x \<Rightarrow> f x)"

text \<open>\<open>xs[i]\<close> for an index that is not negative: IndexError out of range.\<close>

definition getitem :: "'a list \<Rightarrow> nat \<Rightarrow> error + 'a" where
  "getitem xs i = (if i < length xs then Inr (xs ! i) else Inl IndexError)"

text \<open>\<open>xs.index(x)\<close>: the first position of \<open>x\<close>, ValueError when there is none.\<close>

fun list_index :: "'a list \<Rightarrow> 'a \<Rightarrow> error + nat" where
  "list_index [] x = Inl ValueError"
| "list_index (y # ys) x =
     (if y = x then Inr 0
      else (case list_index ys x of Inl e \<Rightarrow> Inl e | Inr i \<Rightarrow> Inr (Suc i)))"

text \<open>\<open>d[k]\<close> on a dictionary: KeyError when the key is missing.\<close>

definition dict_getitem :: "('k \<rightharpoonup> 'v) \<Rightarrow> 'k \<Rightarrow> error + 'v" where
  "dict_getitem d k = (case d k of None \<Rightarrow> Inl KeyError | Some v \<Rightarrow> Inr v)"

text \<open>\<open>d.get(k, dflt)\<close> on a dictionary.\<close>

definition dict_get :: "('k \<rightharpoonup> 'v) \<Rightarrow> 'k \<Rightarrow> 'v \<Rightarrow> 'v" where
  "dict_get d k dflt = (case d k of None \<Rightarrow> dflt | Some v \<Rightarrow> v)"

text \<open>\<open>k in d\<close> on a dictionary.\<close>

definition dict_contains :: "('k \<rightharpoonup> 'v) \<Rightarrow> 'k \<Rightarrow> bool" where
  "dict_contains d k = (d k \<noteq> None)"

text \<open>\<open>w.endswith(e)\<close>.\<close>

definition endswith :: "pystr \<Rightarrow> pystr \<Rightarrow> bool" where
  "endswith w e = (length e \<le> length w \<and> drop (length w - length e) w = e)"

text \<open>\<open>kw in s\<close> on strings: \<open>kw\<close> occurs in \<open>s\<close> as a contiguous substring.\<close>

fun contains :: "pystr \<Rightarrow> pystr \<Rightarrow> bool" where
  "contains [] kw = (kw = [])"
| "contains (c # cs) kw = (take (length kw) (c # cs) = kw \<or> contains cs kw)"

text \<open>
  \<open>s.rstrip(chars)\<close>: removes from the right end every character that is in
  \<open>chars\<close>, until one is not.
\<close>

definition rstrip :: "pystr \<Rightarrow> pystr \<Rightarrow> pystr" where
  "rstrip s chars = rev (dropWhile (\<lambda>c. c \<in> set chars) (rev s))"

text \<open>
  The code points for which \<open>str.isspace\<close> holds; \<open>str.split()\<close> with no argument
  splits on runs of them and returns no empty string.
\<close>

definition isspace :: "nat \<Rightarrow> bool" where
  "isspace c = (c \<in> set [9, 10, 11, 12, 13, 28, 29, 30, 31, 32, 133, 160, 5760,
     8192, 8193, 8194, 8195, 8196, 8197, 8198, 8199, 8200, 8201, 8202,
     8232, 8233, 8239, 8287, 12288])"

fun split_from :: "pystr \<Rightarrow> pystr \<Rightarrow> pystr list" where
  "split_from cur [] = (if cur = [] then [] else [cur])"
| "split_from cur (c # cs) =
     (if isspace c then (if cur = [] then split_from [] cs else cur # split_from [] cs)
      else split_from (cur @ [c]) cs)"

definition str_split :: "pystr \<Rightarrow> pystr list" where
  "str_split s = split_from [] s"

text \<open>\<open>str(n)\<close> for an integer: its decimal digits, with a sign when negative.\<close>

fun digits_fuel :: "nat \<Rightarrow> nat \<Rightarrow> pystr" where
  "digits_fuel 0 n = [48 + n mod 10]"
| "digits_fuel (Suc k) n =
     (if n < 10 then [48 + n] else digits_fuel k (n div 10) @ [48 + n mod 10])"

definition str_of_int :: "int \<Rightarrow> pystr" where
  "str_of_int i =
     (if i < 0 then 45 # digits_fuel (nat (- i)) (nat (- i)) else digits_fuel (nat i) (nat i))"

text \<open>
  \<open>re.search(r"'([^']+)'", text)\<close>, returning group 1 of the leftmost match. The class
  \<open>[^']\<close> cannot cross an apostrophe (code point 39), so at an opening apostrophe the
  match takes the whole run of other characters up to the next apostrophe; it succeeds
  when that run is not empty and an apostrophe closes it, and otherwise the search
  goes on from the next position.
\<close>

fun search_quoted :: "pystr \<Rightarrow> pystr option" where
  "search_quoted [] = None"
| "search_quoted (c # cs) =
     (if c = 39 then
        (let body = takeWhile (\<lambda>x. x \<noteq> 39) cs; rest = dropWhile (\<lambda>x. x \<noteq> 39) cs
         in if body \<noteq> [] \<and> rest \<noteq> [] then Some body else search_quoted cs)
      else search_quoted cs)"

section \<open>The tables of EstonianValidator\<close>

text \<open>
  The tables \<open>pronoun_verb_agreement\<close> and \<open>adjective_patterns\<close>; no method reads
  \<open>cases\<close> or \<open>case_endings\<close>.
\<close>

record pronoun_entry =
  person :: int
  number :: pystr
  endings :: "pystr list"

definition pronoun_verb_agreement :: "pystr \<rightharpoonup> pronoun_entry" where
  "pronoun_verb_agreement = map_of
     [(u ''ma'', \<lparr>person = 1, number = u ''sing'', endings = [u ''n'']\<rparr>),
      (u ''sa'', \<lparr>person = 2, number = u ''sing'', endings = [u ''d'']\<rparr>),
      (u ''ta'', \<lparr>person = 3, number = u ''sing'', endings = [u ''b'', o_stroke]\<rparr>),
      (u ''me'', \<lparr>person = 1, number = u ''plur'', endings = [u ''me'']\<rparr>),
      (u ''te'', \<lparr>person = 2, number = u ''plur'', endings = [u ''te'']\<rparr>),
      (u ''nad'', \<lparr>person = 3, number = u ''plur'', endings = [u ''vad'', u ''id'']\<rparr>)]"

record pattern =
  adjective :: "pystr list"
  noun :: "pystr list"

text \<open>A dictionary iterated in insertion order: an association list.\<close>

definition adjective_patterns :: "(pystr \<times> pattern) list" where
  "adjective_patterns =
     [(u ''partitive'',
        \<lparr>adjective = [u ''t'', u ''at'', u ''ut'', u ''et''],
         noun = [u ''t'', u ''i'', u ''d'', u ''e'', u ''a'', u ''u'']\<rparr>),
      (u ''genitive'',
        \<lparr>adjective = [o_stroke, u ''a'', u ''e''],
         noun = [u ''i'', u ''e'', u ''a'', u ''u'']\<rparr>)]"

section \<open>The checkers\<close>

text \<open>
  \<open>_check_verb_agreement\<close>. The loop over \<open>expected['endings']\<close> skips the entry
  U+00F8 and returns at the first ending the verb ends with.
\<close>

fun endings_loop :: "pystr \<Rightarrow> pystr list \<Rightarrow> bool" where
  "endings_loop verb [] = False"
| "endings_loop verb (ending # rest) =
     (if ending = o_stroke then endings_loop verb rest
      else if endswith verb ending then True
      else endings_loop verb rest)"

definition check_verb_agreement :: "pystr \<Rightarrow> pystr \<Rightarrow> error + bool" where
  "check_verb_agreement pronoun verb =
     (if \<not> dict_contains pronoun_verb_agreement pronoun then Inr True
      else bind (dict_getitem pronoun_verb_agreement pronoun) (\<lambda>expected.
        if pronoun = u ''ta'' \<and>
           \<not> list_ex (\<lambda>e. endswith verb e) [u ''n'', u ''d'', u ''me'', u ''te'', u ''vad'']
        then Inr True
        else Inr (endings_loop verb (endings expected))))"

text \<open>\<open>_is_adjective_noun_pair\<close>: the second word is not read.\<close>

definition adj_endings :: "pystr list" where
  "adj_endings = [u ''ne'', u ''line'', u ''lik'', u ''kas'', u ''ine'']"

definition is_adjective_noun_pair :: "pystr \<Rightarrow> pystr \<Rightarrow> bool" where
  "is_adjective_noun_pair word1 word2 = list_ex (\<lambda>e. endswith word1 e) adj_endings"

text \<open>\<open>_check_case_agreement\<close>: the loop over the items of \<open>adjective_patterns\<close>.\<close>

fun case_patterns_loop :: "(pystr \<times> pattern) list \<Rightarrow> pystr \<Rightarrow> pystr \<Rightarrow> bool" where
  "case_patterns_loop [] adj_word noun_word = False"
| "case_patterns_loop ((case_type, patterns) # rest) adj_word noun_word =
     (let adj_match = list_ex (\<lambda>e. endswith adj_word e) (adjective patterns);
          noun_match = list_ex (\<lambda>e. endswith noun_word e) (noun patterns)
      in if adj_match \<and> noun_match then True
         else case_patterns_loop rest adj_word noun_word)"

definition check_case_agreement :: "pystr \<Rightarrow> pystr \<Rightarrow> bool" where
  "check_case_agreement adj_word noun_word =
     case_patterns_loop adjective_patterns adj_word noun_word"

text \<open>
  \<open>_is_case_error\<close>. \<open>str.lower\<close> is Python's Unicode lower-casing, which is not
  part of the repository: it is the parameter \<open>lower\<close> of this function and of its
  callers, so that what is proved holds for Python's function whatever it does to a
  string. \<open>lower_ascii\<close> is what it does to a string of ASCII characters.
\<close>

definition case_keywords :: "pystr list" where
  "case_keywords =
     [u ''partitiiv'', u ''genitiiv'', u ''illatiiv'', u ''inessiiv'',
      u ''elatiiv'', u ''allatiiv'', u ''adessiiv'', u ''ablatiiv'',
      u ''partitivo'', u ''genitivo'', u ''ilativo'', u ''inessivo'',
      u ''caso'', u ''requiere'']"

definition is_case_error :: "(pystr \<Rightarrow> pystr) \<Rightarrow> pystr \<Rightarrow> pystr \<Rightarrow> bool" where
  "is_case_error lower word explanation =
     list_ex (\<lambda>kw. contains (lower explanation) kw) case_keywords"

definition lower_ascii :: "pystr \<Rightarrow> pystr" where
  "lower_ascii s = map (\<lambda>c. if 65 \<le> c \<and> c \<le> 90 then c + 32 else c) s"

section \<open>validate\_single\_error\<close>

text \<open>
  An entry of \<open>error_details\<close>: a dictionary whose \<open>type\<close> is \<open>verb_agreement\<close>
  (with \<open>word\<close> and \<open>position\<close>), \<open>case_agreement\<close> (with \<open>words\<close> and
  \<open>positions\<close>) or \<open>case_error\<close> (with \<open>word\<close> and \<open>position\<close>).
\<close>

datatype finding =
    VerbAgreement pystr nat
  | CaseAgreement "pystr list" "nat list"
  | CaseError pystr nat

record verdict =
  valid :: bool
  error_count :: int
  errors :: "finding list"
  message :: pystr

text \<open>
  The first loop, over \<open>enumerate(words)\<close>; the state is the pair of the local
  variables \<open>error_count\<close> (written \<open>count\<close>, since \<open>error_count\<close> is a field of
  the verdict) and \<open>error_details\<close>.
\<close>

fun verb_agreement_loop ::
  "pystr list \<Rightarrow> (nat \<times> pystr) list \<Rightarrow> int \<times> finding list \<Rightarrow> error + (int \<times> finding list)"
where
  "verb_agreement_loop words [] (count, error_details) = Inr (count, error_details)"
| "verb_agreement_loop words ((i, word) # rest) (count, error_details) =
     (if dict_contains pronoun_verb_agreement word then
        (if i + 1 < length words then
           bind (getitem words (i + 1)) (\<lambda>verb.
           bind (check_verb_agreement word verb) (\<lambda>agrees.
             if \<not> agrees then
               verb_agreement_loop words rest
                 (count + 1, error_details @ [VerbAgreement verb (i + 1)])
             else verb_agreement_loop words rest (count, error_details)))
         else verb_agreement_loop words rest (count, error_details))
      else verb_agreement_loop words rest (count, error_details))"

text \<open>The second loop, over \<open>range(len(words) - 1)\<close>.\<close>

fun case_agreement_loop ::
  "pystr list \<Rightarrow> nat list \<Rightarrow> int \<times> finding list \<Rightarrow> error + (int \<times> finding list)"
where
  "case_agreement_loop words [] (count, error_details) = Inr (count, error_details)"
| "case_agreement_loop words (i # rest) (count, error_details) =
     bind (getitem words i) (\<lambda>w1.
     bind (getitem words (i + 1)) (\<lambda>w2.
       if is_adjective_noun_pair w1 w2 then
         (if \<not> check_case_agreement w1 w2 then
            case_agreement_loop words rest
              (count + 2, error_details @ [CaseAgreement [w1, w2] [i, i + 1]])
          else case_agreement_loop words rest (count, error_details))
       else case_agreement_loop words rest (count, error_details)))"

text \<open>The third check, on \<open>error_word\<close>.\<close>

definition case_error_check ::
  "(pystr \<Rightarrow> pystr) \<Rightarrow> pystr list \<Rightarrow> pystr \<Rightarrow> pystr \<Rightarrow> int \<times> finding list \<Rightarrow>
     error + (int \<times> finding list)"
where
  "case_error_check lower words error_word explanation st =
     (case st of (count, error_details) \<Rightarrow>
        if error_word \<in> set words then
          bind (list_index words error_word) (\<lambda>idx.
            if is_case_error lower error_word explanation then
              Inr (count + 1, error_details @ [CaseError error_word idx])
            else Inr (count, error_details))
        else Inr (count, error_details))"

definition verdict_of :: "int \<times> finding list \<Rightarrow> verdict" where
  "verdict_of st =
     (case st of (count, error_details) \<Rightarrow>
        \<lparr>valid = (count = 1),
         error_count = count,
         errors = error_details,
         message = (if count = 1 then u ''Single error detected''
                    else u ''Multiple errors detected: '' @ str_of_int count)\<rparr>)"

definition validate_single_error ::
  "(pystr \<Rightarrow> pystr) \<Rightarrow> pystr \<Rightarrow> pystr \<Rightarrow> pystr \<Rightarrow> error + verdict"
where
  "validate_single_error lower sentence error_word explanation =
     (let words = str_split sentence in
      bind (verb_agreement_loop words (enumerate 0 words) (0, [])) (\<lambda>st1.
      bind (case_agreement_loop words [0..<nat (int (length words) - 1)] st1) (\<lambda>st2.
      bind (case_error_check lower words error_word explanation st2) (\<lambda>st3.
        Inr (verdict_of st3)))))"

section \<open>analyze\_error\_detection\_quiz\<close>

text \<open>
  A question record is a dictionary from field names to strings; the fields read are
  \<open>question\<close>, \<open>correctAnswer\<close> and \<open>explanation\<close>. \<open>quiz_data\<close> is a dictionary
  whose key \<open>questions\<close>, when present, holds the list of records.
\<close>

type_synonym question = "pystr \<rightharpoonup> pystr"

type_synonym quiz = "pystr \<rightharpoonup> question list"

record detail =
  d_question :: pystr
  d_sentence :: pystr
  d_error_word :: pystr
  d_validation :: verdict

record quiz_result =
  total_questions :: int
  valid_questions :: int
  invalid_questions :: int
  details :: "detail list"
  all_valid :: bool

fun questions_loop ::
  "(pystr \<Rightarrow> pystr) \<Rightarrow> question list \<Rightarrow> detail list \<Rightarrow> error + detail list"
where
  "questions_loop lower [] results = Inr results"
| "questions_loop lower (q # rest) results =
     bind (dict_getitem q (u ''question'')) (\<lambda>question_text.
       case search_quoted question_text of
         None \<Rightarrow> questions_loop lower rest results
       | Some sentence \<Rightarrow>
           bind (dict_getitem q (u ''correctAnswer'')) (\<lambda>error_word.
           bind (dict_getitem q (u ''explanation'')) (\<lambda>explanation.
           bind (validate_single_error lower sentence error_word explanation) (\<lambda>validation.
             questions_loop lower rest
               (results @ [\<lparr>d_question = question_text, d_sentence = sentence,
                            d_error_word = error_word, d_validation = validation\<rparr>])))))"

definition analyze_error_detection_quiz ::
  "(pystr \<Rightarrow> pystr) \<Rightarrow> quiz \<Rightarrow> error + quiz_result"
where
  "analyze_error_detection_quiz lower quiz_data =
     bind (questions_loop lower (dict_get quiz_data (u ''questions'') []) [])
       (\<lambda>results.
          let valid_count = int (length (filter (\<lambda>r. valid (d_validation r)) results)) in
          Inr \<lparr>total_questions = int (length results),
               valid_questions = valid_count,
               invalid_questions = int (length results) - valid_count,
               details = results,
               all_valid = (valid_count = int (length results))\<rparr>)"

section \<open>suggest\_fix\<close>

text \<open>The result is \<open>None\<close> where the source returns \<open>None\<close>.\<close>

definition suggest_fix :: "pystr \<Rightarrow> pystr \<Rightarrow> error + pystr option" where
  "suggest_fix sentence error_word =
     (let words = str_split sentence in
      if error_word \<notin> set words then Inr None
      else
        bind (list_index words error_word) (\<lambda>idx.
        bind (if idx > 0
              then bind (getitem words (idx - 1))
                     (\<lambda>w. Inr (dict_contains pronoun_verb_agreement w))
              else Inr False) (\<lambda>after_pronoun.
          if after_pronoun then
            bind (getitem words (idx - 1)) (\<lambda>pronoun.
            bind (dict_getitem pronoun_verb_agreement pronoun) (\<lambda>expected.
              if pronoun = u ''ma'' then Inr (Some (error_word @ u ''n''))
              else if pronoun = u ''sa'' then Inr (Some (error_word @ u ''d''))
              else if pronoun = u ''ta'' then
                Inr (Some (rstrip (rstrip error_word (u ''n'')) (u ''d'')))
              else if pronoun = u ''me'' then Inr (Some (error_word @ u ''me''))
              else if pronoun = u ''te'' then Inr (Some (error_word @ u ''te''))
              else if pronoun = u ''nad'' then Inr (Some (error_word @ u ''vad''))
              else Inr None))
          else Inr None)))"

section \<open>The weight of the findings\<close>

text \<open>What one entry of \<open>error_details\<close> adds to \<open>error_count\<close> where it is appended.\<close>

fun weight :: "finding \<Rightarrow> int" where
  "weight (VerbAgreement w p) = 1"
| "weight (CaseAgreement ws ps) = 2"
| "weight (CaseError w p) = 1"

definition total_weight :: "finding list \<Rightarrow> int" where
  "total_weight fs = sum_list (map weight fs)"

text \<open>The \<open>type\<close> field of a finding, and the number of findings of one type.\<close>

fun finding_type :: "finding \<Rightarrow> pystr" where
  "finding_type (VerbAgreement w p) = u ''verb_agreement''"
| "finding_type (CaseAgreement ws ps) = u ''case_agreement''"
| "finding_type (CaseError w p) = u ''case_error''"

definition count_of_type :: "pystr \<Rightarrow> finding list \<Rightarrow> int" where
  "count_of_type t fs = int (length (filter (\<lambda>f. finding_type f = t) fs))"

section \<open>Notions for stating the properties of the quiz loop\<close>

text \<open>
  \<open>has_quoted_segment q\<close>: the record has a question text in which the pattern of
  \<open>analyze_error_detection_quiz\<close> finds a match. \<open>no_quoted_segment q\<close>: it has a
  question text in which the pattern finds none. \<open>readable q\<close>: the record has every
  field the loop reads from it, which is \<open>question\<close>, and \<open>correctAnswer\<close> and
  \<open>explanation\<close> when the pattern finds a match.
\<close>

definition has_quoted_segment :: "question \<Rightarrow> bool" where
  "has_quoted_segment q =
     (case q (u ''question'') of None \<Rightarrow> False | Some t \<Rightarrow> search_quoted t \<noteq> None)"

definition no_quoted_segment :: "question \<Rightarrow> bool" where
  "no_quoted_segment q =
     (case q (u ''question'') of None \<Rightarrow> False | Some t \<Rightarrow> search_quoted t = None)"

definition readable :: "question \<Rightarrow> bool" where
  "readable q =
     (no_quoted_segment q \<or>
      (has_quoted_segment q \<and> q (u ''correctAnswer'') \<noteq> None \<and> q (u ''explanation'') \<noteq> None))"

section \<open>Properties of the loops\<close>

lemma total_weight_simps [simp]:
  "total_weight [] = 0"
  "total_weight (f # fs) = weight f + total_weight fs"
  "total_weight (fs @ gs) = total_weight fs + total_weight gs"
  by (simp_all add: total_weight_def)

lemma bind_Inr [simp]: "bind (Inr x) f = f x"
  by (simp add: bind_def)

lemma bind_Inl [simp]: "bind (Inl e) f = Inl e"
  by (simp add: bind_def)

lemma list_index_in:
  "x \<in> set xs \<Longrightarrow> \<exists>i. list_index xs x = Inr i \<and> i < length xs \<and> xs ! i = x \<and> x \<notin> set (take i xs)"
proof (induction xs)
  case Nil
  then show ?case by simp
next
  case (Cons y ys)
  show ?case
  proof (cases "y = x")
    case True
    then show ?thesis by simp
  next
    case False
    with Cons.prems have "x \<in> set ys" by simp
    from Cons.IH [OF this] obtain i where
      "list_index ys x = Inr i" "i < length ys" "ys ! i = x" "x \<notin> set (take i ys)"
      by blast
    with False show ?thesis by simp
  qed
qed

lemma check_verb_agreement_returns: "\<exists>b. check_verb_agreement pronoun verb = Inr b"
  by (cases "pronoun_verb_agreement pronoun")
    (auto simp: check_verb_agreement_def dict_contains_def dict_getitem_def)

lemma verb_agreement_loop_adds:
  "\<exists>new. verb_agreement_loop words ps (count, ds) = Inr (count + total_weight new, ds @ new)
     \<and> list_all (\<lambda>f. \<exists>i w. f = VerbAgreement (words ! (i + 1)) (i + 1) \<and> (i, w) \<in> set ps
           \<and> dict_contains pronoun_verb_agreement w \<and> i + 1 < length words) new"
proof (induction ps arbitrary: count ds)
  case Nil
  have "verb_agreement_loop words [] (count, ds) = Inr (count + total_weight [], ds @ [])"
    by simp
  then show ?case by (intro exI [of _ "[]"]) simp
next
  case (Cons p ps)
  obtain i word where p: "p = (i, word)" by (cases p)
  let ?P = "\<lambda>qs f. \<exists>i w. f = VerbAgreement (words ! (i + 1)) (i + 1) \<and> (i, w) \<in> set qs
           \<and> dict_contains pronoun_verb_agreement w \<and> i + 1 < length words"
  have mono: "list_all (?P ps) new \<Longrightarrow> list_all (?P (p # ps)) new" for new
    by (induction new) auto
  show ?case
  proof (cases "dict_contains pronoun_verb_agreement word \<and> i + 1 < length words
                 \<and> check_verb_agreement word (words ! (i + 1)) = Inr False")
    case True
    from Cons.IH [of "count + 1" "ds @ [VerbAgreement (words ! (i + 1)) (i + 1)]"]
    obtain new where
      run: "verb_agreement_loop words ps
              (count + 1, ds @ [VerbAgreement (words ! (i + 1)) (i + 1)])
            = Inr (count + 1 + total_weight new,
                   (ds @ [VerbAgreement (words ! (i + 1)) (i + 1)]) @ new)"
      and all: "list_all (?P ps) new"
      by blast
    let ?new = "VerbAgreement (words ! (i + 1)) (i + 1) # new"
    have "verb_agreement_loop words (p # ps) (count, ds)
          = Inr (count + total_weight ?new, ds @ ?new)"
      using True run by (simp add: p getitem_def)
    moreover have "list_all (?P (p # ps)) ?new"
      using True mono [OF all] by (auto simp: p)
    ultimately show ?thesis by blast
  next
    case False
    from Cons.IH [of count ds] obtain new where
      run: "verb_agreement_loop words ps (count, ds) = Inr (count + total_weight new, ds @ new)"
      and all: "list_all (?P ps) new"
      by blast
    obtain b where b: "check_verb_agreement word (words ! (i + 1)) = Inr b"
      using check_verb_agreement_returns by blast
    have "verb_agreement_loop words (p # ps) (count, ds)
          = Inr (count + total_weight new, ds @ new)"
      using False run b by (auto simp: p getitem_def)
    with mono [OF all] show ?thesis by blast
  qed
qed

lemma case_agreement_loop_adds:
  "\<forall>i \<in> set idxs. i + 1 < length words \<Longrightarrow>
   \<exists>new. case_agreement_loop words idxs (count, ds) = Inr (count + total_weight new, ds @ new)
     \<and> list_all (\<lambda>f. \<exists>i. f = CaseAgreement [words ! i, words ! (i + 1)] [i, i + 1]
           \<and> i \<in> set idxs \<and> is_adjective_noun_pair (words ! i) (words ! (i + 1))
           \<and> \<not> check_case_agreement (words ! i) (words ! (i + 1))) new"
proof (induction idxs arbitrary: count ds)
  case Nil
  have "case_agreement_loop words [] (count, ds) = Inr (count + total_weight [], ds @ [])"
    by simp
  then show ?case by (intro exI [of _ "[]"]) simp
next
  case (Cons i idxs)
  let ?P = "\<lambda>js f. \<exists>i. f = CaseAgreement [words ! i, words ! (i + 1)] [i, i + 1]
           \<and> i \<in> set js \<and> is_adjective_noun_pair (words ! i) (words ! (i + 1))
           \<and> \<not> check_case_agreement (words ! i) (words ! (i + 1))"
  have mono: "list_all (?P idxs) new \<Longrightarrow> list_all (?P (i # idxs)) new" for new
    by (induction new) auto
  from Cons.prems have i: "i + 1 < length words" "i < length words"
    and rest: "\<forall>j \<in> set idxs. j + 1 < length words"
    by auto
  let ?f = "CaseAgreement [words ! i, words ! (i + 1)] [i, i + 1]"
  show ?case
  proof (cases "is_adjective_noun_pair (words ! i) (words ! (i + 1))
                 \<and> \<not> check_case_agreement (words ! i) (words ! (i + 1))")
    case True
    from Cons.IH [OF rest, of "count + 2" "ds @ [?f]"] obtain new where
      run: "case_agreement_loop words idxs (count + 2, ds @ [?f])
            = Inr (count + 2 + total_weight new, (ds @ [?f]) @ new)"
      and all: "list_all (?P idxs) new"
      by blast
    have "case_agreement_loop words (i # idxs) (count, ds)
          = Inr (count + total_weight (?f # new), ds @ ?f # new)"
      using True run i by (simp add: getitem_def)
    moreover have "list_all (?P (i # idxs)) (?f # new)"
      using True mono [OF all] by auto
    ultimately show ?thesis by blast
  next
    case False
    from Cons.IH [OF rest, of count ds] obtain new where
      run: "case_agreement_loop words idxs (count, ds) = Inr (count + total_weight new, ds @ new)"
      and all: "list_all (?P idxs) new"
      by blast
    have "case_agreement_loop words (i # idxs) (count, ds)
          = Inr (count + total_weight new, ds @ new)"
      using False run i by (auto simp: getitem_def)
    with mono [OF all] show ?thesis by blast
  qed
qed

lemma case_error_check_adds:
  "\<exists>new. case_error_check lower words error_word explanation (count, ds)
            = Inr (count + total_weight new, ds @ new)
     \<and> (new = [] \<or> (\<exists>idx. new = [CaseError error_word idx] \<and> idx < length words
           \<and> words ! idx = error_word \<and> error_word \<notin> set (take idx words)
           \<and> is_case_error lower error_word explanation))"
proof (cases "error_word \<in> set words")
  case True
  from list_index_in [OF True] obtain idx where
    run: "list_index words error_word = Inr idx" and
    idx: "idx < length words" "words ! idx = error_word" "error_word \<notin> set (take idx words)"
    by blast
  show ?thesis
  proof (cases "is_case_error lower error_word explanation")
    case yes: True
    have "case_error_check lower words error_word explanation (count, ds)
          = Inr (count + total_weight [CaseError error_word idx],
                 ds @ [CaseError error_word idx])"
      using True run yes by (simp add: case_error_check_def)
    moreover have "\<exists>i. [CaseError error_word idx] = [CaseError error_word i]
        \<and> i < length words \<and> words ! i = error_word \<and> error_word \<notin> set (take i words)
        \<and> is_case_error lower error_word explanation"
      using idx yes by (intro exI [of _ idx]) simp
    ultimately show ?thesis by (intro exI [of _ "[CaseError error_word idx]"]) simp
  next
    case no: False
    have "case_error_check lower words error_word explanation (count, ds)
          = Inr (count + total_weight [], ds @ [])"
      using True run no by (simp add: case_error_check_def)
    then show ?thesis by (intro exI [of _ "[]"]) simp
  qed
next
  case False
  have "case_error_check lower words error_word explanation (count, ds)
        = Inr (count + total_weight [], ds @ [])"
    using False by (simp add: case_error_check_def)
  then show ?thesis by (intro exI [of _ "[]"]) simp
qed

lemma validate_single_error_findings:
  fixes lower sentence error_word explanation
  defines "words \<equiv> str_split sentence"
  shows "\<exists>vs cs es.
     validate_single_error lower sentence error_word explanation
       = Inr (verdict_of (total_weight (vs @ cs @ es), vs @ cs @ es))
     \<and> list_all (\<lambda>f. \<exists>i. f = VerbAgreement (words ! (i + 1)) (i + 1) \<and> i + 1 < length words
           \<and> dict_contains pronoun_verb_agreement (words ! i)) vs
     \<and> list_all (\<lambda>f. \<exists>i. f = CaseAgreement [words ! i, words ! (i + 1)] [i, i + 1]
           \<and> i + 1 < length words \<and> is_adjective_noun_pair (words ! i) (words ! (i + 1))
           \<and> \<not> check_case_agreement (words ! i) (words ! (i + 1))) cs
     \<and> (es = [] \<or> (\<exists>idx. es = [CaseError error_word idx] \<and> idx < length words
           \<and> words ! idx = error_word \<and> error_word \<notin> set (take idx words)
           \<and> is_case_error lower error_word explanation))"
proof -
  obtain vs where
    v_run: "verb_agreement_loop words (enumerate 0 words) (0, [])
            = Inr (0 + total_weight vs, [] @ vs)"
    and v_all: "list_all (\<lambda>f. \<exists>i w. f = VerbAgreement (words ! (i + 1)) (i + 1)
           \<and> (i, w) \<in> set (enumerate 0 words)
           \<and> dict_contains pronoun_verb_agreement w \<and> i + 1 < length words) vs"
    using verb_agreement_loop_adds [of words "enumerate 0 words" 0 "[]"] by blast
  have range: "\<forall>i \<in> set [0..<nat (int (length words) - 1)]. i + 1 < length words"
    by auto
  obtain cs where
    c_run: "case_agreement_loop words [0..<nat (int (length words) - 1)] (total_weight vs, vs)
            = Inr (total_weight vs + total_weight cs, vs @ cs)"
    and c_all: "list_all (\<lambda>f. \<exists>i. f = CaseAgreement [words ! i, words ! (i + 1)] [i, i + 1]
           \<and> i \<in> set [0..<nat (int (length words) - 1)]
           \<and> is_adjective_noun_pair (words ! i) (words ! (i + 1))
           \<and> \<not> check_case_agreement (words ! i) (words ! (i + 1))) cs"
    using case_agreement_loop_adds [OF range, of "total_weight vs" vs] by blast
  obtain es where
    e_run: "case_error_check lower words error_word explanation
              (total_weight vs + total_weight cs, vs @ cs)
            = Inr (total_weight vs + total_weight cs + total_weight es, (vs @ cs) @ es)"
    and e_shape: "es = [] \<or> (\<exists>idx. es = [CaseError error_word idx] \<and> idx < length words
           \<and> words ! idx = error_word \<and> error_word \<notin> set (take idx words)
           \<and> is_case_error lower error_word explanation)"
    using case_error_check_adds
      [of lower words error_word explanation "total_weight vs + total_weight cs" "vs @ cs"]
    by blast
  have "validate_single_error lower sentence error_word explanation
        = Inr (verdict_of (total_weight (vs @ cs @ es), vs @ cs @ es))"
    using v_run c_run e_run
    by (simp add: validate_single_error_def words_def [symmetric] add.assoc)
  moreover have "list_all (\<lambda>f. \<exists>i. f = VerbAgreement (words ! (i + 1)) (i + 1)
           \<and> i + 1 < length words \<and> dict_contains pronoun_verb_agreement (words ! i)) vs"
    using v_all by (induction vs) (auto simp: in_set_enumerate_eq)
  moreover have "list_all (\<lambda>f. \<exists>i. f = CaseAgreement [words ! i, words ! (i + 1)] [i, i + 1]
           \<and> i + 1 < length words \<and> is_adjective_noun_pair (words ! i) (words ! (i + 1))
           \<and> \<not> check_case_agreement (words ! i) (words ! (i + 1))) cs"
    using c_all by (induction cs) auto
  ultimately show ?thesis using e_shape
    by (intro exI [of _ vs] exI [of _ cs] exI [of _ es] conjI)
qed

lemma total_weight_by_type:
  "total_weight fs = count_of_type (u ''verb_agreement'') fs * 1
     + count_of_type (u ''case_agreement'') fs * 2
     + count_of_type (u ''case_error'') fs * 1"
proof (induction fs)
  case Nil
  then show ?case by (simp add: count_of_type_def)
next
  case (Cons f fs)
  then show ?case by (cases f) (simp_all add: count_of_type_def u_def)
qed

lemma verdict_of_simps [simp]:
  "valid (verdict_of (c, ds)) = (c = 1)"
  "error_count (verdict_of (c, ds)) = c"
  "errors (verdict_of (c, ds)) = ds"
  by (simp_all add: verdict_of_def)

section \<open>The verdict of validate\_single\_error\<close>

text \<open>
  C1. Whatever the sentence, the error word and the explanation,
  \<open>validate_single_error\<close> returns a verdict, and its \<open>valid\<close> field is true exactly
  when its \<open>error_count\<close> field is 1; so it is false at 0, 2 and 3.
\<close>

theorem valid_iff_error_count_one:
  "\<exists>v. validate_single_error lower sentence error_word explanation = Inr v
     \<and> valid v = (error_count v = 1)"
proof -
  obtain vs cs es where
    "validate_single_error lower sentence error_word explanation
       = Inr (verdict_of (total_weight (vs @ cs @ es), vs @ cs @ es))"
    using validate_single_error_findings [of lower sentence error_word explanation] by blast
  then show ?thesis by simp
qed

text \<open>
  C2. The \<open>error_count\<close> of the verdict is the number of \<open>verb_agreement\<close> findings
  times 1, plus the number of \<open>case_agreement\<close> findings times 2, plus the number of
  \<open>case_error\<close> findings times 1, counted over the \<open>errors\<close> field of that verdict.
\<close>

theorem error_count_is_weighted_sum:
  "\<exists>v. validate_single_error lower sentence error_word explanation = Inr v
     \<and> error_count v = count_of_type (u ''verb_agreement'') (errors v) * 1
         + count_of_type (u ''case_agreement'') (errors v) * 2
         + count_of_type (u ''case_error'') (errors v) * 1"
proof -
  obtain vs cs es where
    "validate_single_error lower sentence error_word explanation
       = Inr (verdict_of (total_weight (vs @ cs @ es), vs @ cs @ es))"
    using validate_single_error_findings [of lower sentence error_word explanation] by blast
  then show ?thesis using total_weight_by_type [of "vs @ cs @ es"] by simp
qed

text \<open>
  C5. \<open>validate_single_error\<close> never raises: the guards \<open>i + 1 < len(words)\<close>,
  \<open>range(len(words) - 1)\<close> and \<open>error_word in words\<close> keep every index and every
  \<open>index\<close> call in range, so a verdict is returned for every input. When the sentence
  has no token, the verdict has \<open>error_count\<close> 0 and is not valid.
\<close>

theorem validate_single_error_never_raises:
  "\<exists>v. validate_single_error lower sentence error_word explanation = Inr v
     \<and> (str_split sentence = [] \<longrightarrow> error_count v = 0 \<and> \<not> valid v)"
proof -
  let ?words = "str_split sentence"
  obtain vs cs es where
    run: "validate_single_error lower sentence error_word explanation
       = Inr (verdict_of (total_weight (vs @ cs @ es), vs @ cs @ es))"
    and vs: "list_all (\<lambda>f. \<exists>i. f = VerbAgreement (?words ! (i + 1)) (i + 1)
           \<and> i + 1 < length ?words
           \<and> dict_contains pronoun_verb_agreement (?words ! i)) vs"
    and cs: "list_all (\<lambda>f. \<exists>i. f = CaseAgreement [?words ! i, ?words ! (i + 1)] [i, i + 1]
           \<and> i + 1 < length ?words \<and> is_adjective_noun_pair (?words ! i) (?words ! (i + 1))
           \<and> \<not> check_case_agreement (?words ! i) (?words ! (i + 1))) cs"
    and es: "es = [] \<or> (\<exists>idx. es = [CaseError error_word idx] \<and> idx < length ?words
           \<and> ?words ! idx = error_word \<and> error_word \<notin> set (take idx ?words)
           \<and> is_case_error lower error_word explanation)"
    using validate_single_error_findings [of lower sentence error_word explanation] by blast
  have "total_weight (vs @ cs @ es) = 0" if empty: "?words = []"
  proof -
    have "vs = []" using vs empty by (cases vs) simp_all
    moreover have "cs = []" using cs empty by (cases cs) simp_all
    moreover have "es = []" using es empty by auto
    ultimately show ?thesis by simp
  qed
  with run show ?thesis by simp
qed

theorem validate_single_error_never_raises_witness:
  "str_split (u ''  '') = []
   \<and> (\<exists>v. validate_single_error lower_ascii (u ''  '') (u ''maja'') (u ''partitiiv'') = Inr v
         \<and> error_count v = 0 \<and> \<not> valid v)"
proof -
  have empty: "str_split (u ''  '') = []"
    by (simp add: str_split_def u_def isspace_def)
  with validate_single_error_never_raises [of lower_ascii "u ''  ''" "u ''maja''" "u ''partitiiv''"]
  show ?thesis by blast
qed

section \<open>Evaluating literals\<close>

lemma table_literals:
  "u ''ma'' = [109, 97]" "u ''sa'' = [115, 97]" "u ''ta'' = [116, 97]"
  "u ''me'' = [109, 101]" "u ''te'' = [116, 101]" "u ''nad'' = [110, 97, 100]"
  "u ''n'' = [110]" "u ''d'' = [100]" "u ''b'' = [98]"
  "u ''vad'' = [118, 97, 100]" "u ''id'' = [105, 100]"
  "u ''ne'' = [110, 101]" "u ''line'' = [108, 105, 110, 101]" "u ''lik'' = [108, 105, 107]"
  "u ''kas'' = [107, 97, 115]" "u ''ine'' = [105, 110, 101]"
  "u ''t'' = [116]" "u ''at'' = [97, 116]" "u ''ut'' = [117, 116]" "u ''et'' = [101, 116]"
  "u ''i'' = [105]" "u ''e'' = [101]" "u ''a'' = [97]" "u ''u'' = [117]"
  by (simp_all add: u_def)

lemma example_literals:
  "u ''ma punane majas'' = [109, 97, 32, 112, 117, 110, 97, 110, 101, 32, 109, 97, 106, 97, 115]"
  "u ''punane'' = [112, 117, 110, 97, 110, 101]"
  "u ''majas'' = [109, 97, 106, 97, 115]"
  "u ''x'' = [120]"
  by (simp_all add: u_def)

section \<open>Overlapping findings\<close>

lemma pronoun_cases:
  "dict_contains pronoun_verb_agreement w \<Longrightarrow>
     w = u ''ma'' \<or> w = u ''sa'' \<or> w = u ''ta'' \<or> w = u ''me'' \<or> w = u ''te'' \<or> w = u ''nad''"
  by (simp add: dict_contains_def pronoun_verb_agreement_def split: if_splits)

lemma pronoun_not_adjective:
  "dict_contains pronoun_verb_agreement w \<Longrightarrow> \<not> is_adjective_noun_pair w w2"
  by (drule pronoun_cases)
     (auto simp: is_adjective_noun_pair_def adj_endings_def endswith_def u_def)

lemma no_same_pair:
  assumes run: "validate_single_error lower sentence error_word explanation = Inr v"
    and verb: "VerbAgreement verb (i + 1) \<in> set (errors v)"
    and pair: "CaseAgreement ws [i, i + 1] \<in> set (errors v)"
  shows False
proof -
  let ?words = "str_split sentence"
  obtain vs cs es where
    run': "validate_single_error lower sentence error_word explanation
       = Inr (verdict_of (total_weight (vs @ cs @ es), vs @ cs @ es))"
    and vs: "list_all (\<lambda>f. \<exists>i. f = VerbAgreement (?words ! (i + 1)) (i + 1)
           \<and> i + 1 < length ?words
           \<and> dict_contains pronoun_verb_agreement (?words ! i)) vs"
    and cs: "list_all (\<lambda>f. \<exists>i. f = CaseAgreement [?words ! i, ?words ! (i + 1)] [i, i + 1]
           \<and> i + 1 < length ?words \<and> is_adjective_noun_pair (?words ! i) (?words ! (i + 1))
           \<and> \<not> check_case_agreement (?words ! i) (?words ! (i + 1))) cs"
    and es: "es = [] \<or> (\<exists>idx. es = [CaseError error_word idx] \<and> idx < length ?words
           \<and> ?words ! idx = error_word \<and> error_word \<notin> set (take idx ?words)
           \<and> is_case_error lower error_word explanation)"
    using validate_single_error_findings [of lower sentence error_word explanation] by blast
  from run run' have "v = verdict_of (total_weight (vs @ cs @ es), vs @ cs @ es)"
    by (simp del: total_weight_simps)
  then have errs: "errors v = vs @ cs @ es" by (simp del: total_weight_simps)
  have "VerbAgreement verb (i + 1) \<in> set vs"
    using verb cs es unfolding errs by (auto simp: list_all_iff)
  then have pron: "dict_contains pronoun_verb_agreement (?words ! i)"
    using vs by (auto simp: list_all_iff)
  have "CaseAgreement ws [i, i + 1] \<in> set cs"
    using pair vs es unfolding errs by (auto simp: list_all_iff)
  then have "is_adjective_noun_pair (?words ! i) (?words ! (i + 1))"
    using cs by (auto simp: list_all_iff)
  with pronoun_not_adjective [OF pron] show False by blast
qed

text \<open>
  C3, as stated, does not hold: a \<open>verb_agreement\<close> finding at position \<open>i + 1\<close>
  needs token \<open>i\<close> to be one of the six pronouns, a \<open>case_agreement\<close> finding at
  positions \<open>[i, i + 1]\<close> needs token \<open>i\<close> to end in \<open>ne\<close>, \<open>line\<close>, \<open>lik\<close>,
  \<open>kas\<close> or \<open>ine\<close>, and no pronoun does. No input yields both findings for the same
  pair.
\<close>

theorem same_pair_overlap_impossible:
  "\<not> (\<exists>lower sentence error_word explanation v i verb ws.
        validate_single_error lower sentence error_word explanation = Inr v
        \<and> VerbAgreement verb (i + 1) \<in> set (errors v)
        \<and> CaseAgreement ws [i, i + 1] \<in> set (errors v))"
  using no_same_pair by blast



lemma split_ma_punane_majas:
  "str_split (u ''ma punane majas'') = [u ''ma'', u ''punane'', u ''majas'']"
  by (simp add: str_split_def table_literals example_literals isspace_def)

lemma verb_loop_ma_punane_majas:
  "verb_agreement_loop [u ''ma'', u ''punane'', u ''majas'']
     (enumerate 0 [u ''ma'', u ''punane'', u ''majas'']) (0, [])
   = Inr (1, [VerbAgreement (u ''punane'') 1])"
  by (simp add: getitem_def check_verb_agreement_def dict_contains_def dict_getitem_def
      pronoun_verb_agreement_def endswith_def table_literals example_literals o_stroke_def)

lemma case_loop_ma_punane_majas:
  "case_agreement_loop [u ''ma'', u ''punane'', u ''majas''] [0, 1]
     (1, [VerbAgreement (u ''punane'') 1])
   = Inr (3, [VerbAgreement (u ''punane'') 1,
              CaseAgreement [u ''punane'', u ''majas''] [1, 2]])"
  by (simp add: getitem_def is_adjective_noun_pair_def adj_endings_def
      check_case_agreement_def adjective_patterns_def endswith_def
      table_literals example_literals o_stroke_def numeral_2_eq_2)

lemma range_of_three: "[0..<nat (int (length [a, b, c :: pystr]) - 1)] = [0, 1]"
  by (simp add: upt_rec)

lemma run_ma_punane_majas:
  "validate_single_error lower (u ''ma punane majas'') (u ''x'') explanation
     = Inr (verdict_of (3,
         [VerbAgreement (u ''punane'') 1, CaseAgreement [u ''punane'', u ''majas''] [1, 2]]))"
proof -
  have absent: "u ''x'' \<notin> set [u ''ma'', u ''punane'', u ''majas'']"
    by (simp add: table_literals example_literals)
  show ?thesis
    unfolding validate_single_error_def split_ma_punane_majas Let_def
      verb_loop_ma_punane_majas range_of_three bind_Inr case_loop_ma_punane_majas
    using absent by (simp add: case_error_check_def)
qed

text \<open>
  C3, amended. The two findings never concern the same pair, but nothing removes
  duplicates and they can implicate the same token through neighbouring pairs: in
  \<open>ma punane majas\<close> the token \<open>punane\<close> is the verb of the \<open>verb_agreement\<close>
  finding at position 1 (after the pronoun \<open>ma\<close>) and the adjective of the
  \<open>case_agreement\<close> finding at positions 1 and 2, and \<open>error_count\<close> is 3.
\<close>

theorem overlap_only_on_shared_token:
  "\<not> (\<exists>v i verb ws.
        validate_single_error lower sentence error_word explanation = Inr v
        \<and> VerbAgreement verb (i + 1) \<in> set (errors v)
        \<and> CaseAgreement ws [i, i + 1] \<in> set (errors v))
   \<and> (\<exists>v. validate_single_error lower (u ''ma punane majas'') (u ''x'') explanation = Inr v
        \<and> errors v = [VerbAgreement (u ''punane'') 1,
                       CaseAgreement [u ''punane'', u ''majas''] [1, 2]]
        \<and> error_count v = 3)"
proof (intro conjI)
  show "\<not> (\<exists>v i verb ws.
        validate_single_error lower sentence error_word explanation = Inr v
        \<and> VerbAgreement verb (i + 1) \<in> set (errors v)
        \<and> CaseAgreement ws [i, i + 1] \<in> set (errors v))"
    using no_same_pair [of lower sentence error_word explanation] by blast
  show "\<exists>v. validate_single_error lower (u ''ma punane majas'') (u ''x'') explanation = Inr v
        \<and> errors v = [VerbAgreement (u ''punane'') 1,
                       CaseAgreement [u ''punane'', u ''majas''] [1, 2]]
        \<and> error_count v = 3"
    unfolding run_ma_punane_majas by simp
qed

section \<open>The scenario of the spec\<close>

lemma scenario_literals:
  "naed = [110, 228, 101, 100]"
  "u ''ma '' = [109, 97, 32]"
  "u '' raamatut'' = [32, 114, 97, 97, 109, 97, 116, 117, 116]"
  "u ''raamatut'' = [114, 97, 97, 109, 97, 116, 117, 116]"
  by (simp_all add: u_def naed_def)

lemma split_scenario:
  "str_split (u ''ma '' @ naed @ u '' raamatut'')
     = [u ''ma'', naed, u ''raamatut'']"
  by (simp add: str_split_def table_literals scenario_literals isspace_def)

lemma verb_loop_scenario:
  "verb_agreement_loop [u ''ma'', naed, u ''raamatut'']
     (enumerate 0 [u ''ma'', naed, u ''raamatut'']) (0, [])
   = Inr (1, [VerbAgreement naed 1])"
  by (simp add: getitem_def check_verb_agreement_def dict_contains_def dict_getitem_def
      pronoun_verb_agreement_def endswith_def table_literals scenario_literals o_stroke_def)

lemma case_loop_scenario:
  "case_agreement_loop [u ''ma'', naed, u ''raamatut''] [0, 1] st
   = Inr st"
  by (cases st)
     (simp add: getitem_def is_adjective_noun_pair_def adj_endings_def endswith_def
       table_literals scenario_literals)

lemma index_scenario:
  "list_index [u ''ma'', naed, u ''raamatut'']
     naed = Inr 1"
  by (simp add: table_literals scenario_literals)

lemma run_scenario:
  "validate_single_error lower (u ''ma '' @ naed @ u '' raamatut'')
     naed explanation
   = Inr (verdict_of
       (if is_case_error lower naed explanation
        then (2, [VerbAgreement naed 1,
                  CaseError naed 1])
        else (1, [VerbAgreement naed 1])))"
  unfolding validate_single_error_def split_scenario Let_def
    verb_loop_scenario range_of_three bind_Inr case_loop_scenario
  by (simp add: case_error_check_def index_scenario del: list_index.simps)

text \<open>
  C8. On the sentence \<open>ma naed raamatut\<close> (with U+00E4 in the second word), the error
  word \<open>naed\<close> and the explanation \<open>peab olema partitiiv\<close>, the verdict lists
  exactly one \<open>verb_agreement\<close> finding, the word \<open>naed\<close> at position 1, and
  \<open>error_count\<close> is at least 1.
\<close>

theorem scenario_ma_naed_raamatut:
  "\<exists>v. validate_single_error lower (u ''ma '' @ naed @ u '' raamatut'')
          naed (u ''peab olema partitiiv'') = Inr v
     \<and> filter (\<lambda>f. finding_type f = u ''verb_agreement'') (errors v)
         = [VerbAgreement naed 1]
     \<and> 1 \<le> error_count v"
proof -
  have types: "u ''case_error'' \<noteq> u ''verb_agreement''"
    by (simp add: u_def)
  show ?thesis
    unfolding run_scenario using types by simp
qed

text \<open>
  The explanation is ASCII, so Python's lower-casing leaves it as it is: the
  \<open>case_error\<close> finding is emitted too, and \<open>error_count\<close> is 2.
\<close>

lemma scenario_with_ascii_lower:
  "validate_single_error lower_ascii (u ''ma '' @ naed @ u '' raamatut'')
     naed (u ''peab olema partitiiv'')
   = Inr (verdict_of (2, [VerbAgreement naed 1,
                          CaseError naed 1]))"
proof -
  have "contains (lower_ascii (u ''peab olema partitiiv'')) (u ''partitiiv'')"
    by (simp add: lower_ascii_def u_def)
  then have "is_case_error lower_ascii naed (u ''peab olema partitiiv'')"
    by (simp add: is_case_error_def case_keywords_def)
  then show ?thesis unfolding run_scenario by simp
qed

section \<open>The case agreement checker\<close>

text \<open>
  C9. \<open>_check_case_agreement\<close> compares the entry U+00F8 of the genitive adjective
  endings as a literal suffix (only \<open>_check_verb_agreement\<close> skips it). The result is
  true exactly when the adjective ends in \<open>t\<close>, \<open>at\<close>, \<open>ut\<close> or \<open>et\<close> and the
  noun in \<open>t\<close>, \<open>i\<close>, \<open>d\<close>, \<open>e\<close>, \<open>a\<close> or \<open>u\<close>, or the adjective ends in the
  character U+00F8, in \<open>a\<close> or in \<open>e\<close> and the noun in \<open>i\<close>, \<open>e\<close>, \<open>a\<close> or
  \<open>u\<close>. An adjective with none of these three endings never matches the genitive
  row: for it the result is that of the partitive row alone.
\<close>

theorem check_case_agreement_o_stroke_literal:
  "check_case_agreement adj_word noun_word =
     (((endswith adj_word (u ''t'') \<or> endswith adj_word (u ''at'')
          \<or> endswith adj_word (u ''ut'') \<or> endswith adj_word (u ''et''))
        \<and> (endswith noun_word (u ''t'') \<or> endswith noun_word (u ''i'')
          \<or> endswith noun_word (u ''d'') \<or> endswith noun_word (u ''e'')
          \<or> endswith noun_word (u ''a'') \<or> endswith noun_word (u ''u'')))
      \<or> ((endswith adj_word [248] \<or> endswith adj_word (u ''a'')
          \<or> endswith adj_word (u ''e''))
        \<and> (endswith noun_word (u ''i'') \<or> endswith noun_word (u ''e'')
          \<or> endswith noun_word (u ''a'') \<or> endswith noun_word (u ''u''))))
   \<and> (\<not> endswith adj_word [248] \<and> \<not> endswith adj_word (u ''a'')
          \<and> \<not> endswith adj_word (u ''e'')
        \<longrightarrow> check_case_agreement adj_word noun_word =
          ((endswith adj_word (u ''t'') \<or> endswith adj_word (u ''at'')
              \<or> endswith adj_word (u ''ut'') \<or> endswith adj_word (u ''et''))
            \<and> (endswith noun_word (u ''t'') \<or> endswith noun_word (u ''i'')
              \<or> endswith noun_word (u ''d'') \<or> endswith noun_word (u ''e'')
              \<or> endswith noun_word (u ''a'') \<or> endswith noun_word (u ''u''))))"
  by (auto simp: check_case_agreement_def adjective_patterns_def o_stroke_def)

theorem check_case_agreement_o_stroke_literal_witness:
  "\<not> endswith (u ''suur'') [248] \<and> \<not> endswith (u ''suur'') (u ''a'')
     \<and> \<not> endswith (u ''suur'') (u ''e'')
     \<and> endswith (u ''maja'') (u ''a'')
     \<and> \<not> check_case_agreement (u ''suur'') (u ''maja'')
     \<and> check_case_agreement (u ''suur'' @ [248]) (u ''maja'')"
proof -
  have lits: "u ''suur'' = [115, 117, 117, 114]" "u ''maja'' = [109, 97, 106, 97]"
    by (simp_all add: u_def)
  have ends: "\<not> endswith (u ''suur'') [248]" "\<not> endswith (u ''suur'') (u ''a'')"
    "\<not> endswith (u ''suur'') (u ''e'')" "endswith (u ''maja'') (u ''a'')"
    "\<not> endswith (u ''suur'') (u ''t'')" "\<not> endswith (u ''suur'') (u ''at'')"
    "\<not> endswith (u ''suur'') (u ''ut'')" "\<not> endswith (u ''suur'') (u ''et'')"
    "endswith (u ''suur'' @ [248]) [248]"
    by (simp_all add: endswith_def lits table_literals)
  from check_case_agreement_o_stroke_literal [of "u ''suur''" "u ''maja''"] ends
  have "\<not> check_case_agreement (u ''suur'') (u ''maja'')" by simp
  moreover from check_case_agreement_o_stroke_literal [of "u ''suur'' @ [248]" "u ''maja''"] ends
  have "check_case_agreement (u ''suur'' @ [248]) (u ''maja'')" by simp
  ultimately show ?thesis using ends by simp
qed

section \<open>Properties of suggest\_fix\<close>

lemma list_index_Inr:
  "list_index xs x = Inr i \<Longrightarrow> x \<in> set xs \<and> i < length xs"
proof (induction xs arbitrary: i)
  case Nil
  then show ?case by simp
next
  case (Cons y ys)
  then show ?case by (auto split: if_splits sum.splits)
qed

lemma suggest_fix_absent:
  "error_word \<notin> set (str_split sentence) \<Longrightarrow> suggest_fix sentence error_word = Inr None"
  by (simp add: suggest_fix_def)

lemma suggest_fix_after_pronoun:
  assumes idx: "list_index (str_split sentence) error_word = Inr idx" "0 < idx"
    and pron: "dict_contains pronoun_verb_agreement (str_split sentence ! (idx - 1))"
  shows "suggest_fix sentence error_word =
     (let pronoun = str_split sentence ! (idx - 1) in
      if pronoun = u ''ma'' then Inr (Some (error_word @ u ''n''))
      else if pronoun = u ''sa'' then Inr (Some (error_word @ u ''d''))
      else if pronoun = u ''ta'' then
        Inr (Some (rstrip (rstrip error_word (u ''n'')) (u ''d'')))
      else if pronoun = u ''me'' then Inr (Some (error_word @ u ''me''))
      else if pronoun = u ''te'' then Inr (Some (error_word @ u ''te''))
      else if pronoun = u ''nad'' then Inr (Some (error_word @ u ''vad''))
      else Inr None)"
proof -
  from list_index_Inr [OF idx(1)] have mem: "error_word \<in> set (str_split sentence)"
    and len: "idx < length (str_split sentence)" by simp_all
  from len have pre: "getitem (str_split sentence) (idx - 1) = Inr (str_split sentence ! (idx - 1))"
    by (simp add: getitem_def)
  from pron obtain expected where
    "pronoun_verb_agreement (str_split sentence ! (idx - 1)) = Some expected"
    by (auto simp: dict_contains_def)
  then have look: "dict_getitem pronoun_verb_agreement (str_split sentence ! (idx - 1))
      = Inr expected"
    by (simp add: dict_getitem_def)
  show ?thesis
    unfolding suggest_fix_def Let_def using mem idx pron
    by (simp only: if_not_P not_not bind_Inr pre look if_True simp_thms)
qed

lemma pronoun_entries:
  "dict_contains pronoun_verb_agreement (u ''ma'')"
  "dict_contains pronoun_verb_agreement (u ''sa'')"
  "dict_contains pronoun_verb_agreement (u ''ta'')"
  "dict_contains pronoun_verb_agreement (u ''me'')"
  "dict_contains pronoun_verb_agreement (u ''te'')"
  "dict_contains pronoun_verb_agreement (u ''nad'')"
  by (simp_all add: dict_contains_def pronoun_verb_agreement_def table_literals)

lemma pronouns_distinct:
  "u ''me'' \<noteq> u ''ma''" "u ''me'' \<noteq> u ''sa''" "u ''me'' \<noteq> u ''ta''"
  "u ''te'' \<noteq> u ''ma''" "u ''te'' \<noteq> u ''sa''" "u ''te'' \<noteq> u ''ta''" "u ''te'' \<noteq> u ''me''"
  "u ''nad'' \<noteq> u ''ma''" "u ''nad'' \<noteq> u ''sa''" "u ''nad'' \<noteq> u ''ta''"
  "u ''nad'' \<noteq> u ''me''" "u ''nad'' \<noteq> u ''te''"
  "u ''ta'' \<noteq> u ''ma''" "u ''ta'' \<noteq> u ''sa''" "u ''sa'' \<noteq> u ''ma''"
  by (simp_all add: table_literals)

text \<open>
  C6. When \<open>error_word\<close> occurs among the tokens and the token before its first
  occurrence (position \<open>idx - 1\<close> for \<open>idx = words.index(error_word)\<close>, \<open>idx > 0\<close>) is
  \<open>ma\<close>, with \<open>error_word\<close> not ending in \<open>n\<close>, \<open>suggest_fix\<close> returns
  \<open>error_word + 'n'\<close>; when that token is \<open>me\<close>, \<open>te\<close> or \<open>nad\<close> it returns
  \<open>error_word\<close> followed by \<open>me\<close>, \<open>te\<close> or \<open>vad\<close>. When \<open>error_word\<close> is not
  among the tokens it returns \<open>None\<close>. (The source appends \<open>n\<close> after \<open>ma\<close> whatever
  the last letter: \<open>suggest_fix_after_pronoun\<close> has no such condition.)
\<close>

theorem suggest_fix_appends_suffix:
  "(list_index (str_split sentence) error_word = Inr idx \<and> 0 < idx \<longrightarrow>
      (str_split sentence ! (idx - 1) = u ''ma'' \<and> \<not> endswith error_word (u ''n'')
         \<longrightarrow> suggest_fix sentence error_word = Inr (Some (error_word @ u ''n'')))
    \<and> (str_split sentence ! (idx - 1) = u ''me''
         \<longrightarrow> suggest_fix sentence error_word = Inr (Some (error_word @ u ''me'')))
    \<and> (str_split sentence ! (idx - 1) = u ''te''
         \<longrightarrow> suggest_fix sentence error_word = Inr (Some (error_word @ u ''te'')))
    \<and> (str_split sentence ! (idx - 1) = u ''nad''
         \<longrightarrow> suggest_fix sentence error_word = Inr (Some (error_word @ u ''vad''))))
   \<and> (error_word \<notin> set (str_split sentence)
        \<longrightarrow> suggest_fix sentence error_word = Inr None)"
proof (intro conjI impI)
  assume "error_word \<notin> set (str_split sentence)"
  then show "suggest_fix sentence error_word = Inr None" by (rule suggest_fix_absent)
next
  assume idx: "list_index (str_split sentence) error_word = Inr idx \<and> 0 < idx"
    and p: "str_split sentence ! (idx - 1) = u ''ma'' \<and> \<not> endswith error_word (u ''n'')"
  show "suggest_fix sentence error_word = Inr (Some (error_word @ u ''n''))"
    using suggest_fix_after_pronoun [of sentence error_word idx] idx p pronoun_entries
    by simp
next
  assume idx: "list_index (str_split sentence) error_word = Inr idx \<and> 0 < idx"
    and p: "str_split sentence ! (idx - 1) = u ''me''"
  show "suggest_fix sentence error_word = Inr (Some (error_word @ u ''me''))"
    using suggest_fix_after_pronoun [of sentence error_word idx] idx p pronoun_entries
      pronouns_distinct
    by simp
next
  assume idx: "list_index (str_split sentence) error_word = Inr idx \<and> 0 < idx"
    and p: "str_split sentence ! (idx - 1) = u ''te''"
  show "suggest_fix sentence error_word = Inr (Some (error_word @ u ''te''))"
    using suggest_fix_after_pronoun [of sentence error_word idx] idx p pronoun_entries
      pronouns_distinct
    by simp
next
  assume idx: "list_index (str_split sentence) error_word = Inr idx \<and> 0 < idx"
    and p: "str_split sentence ! (idx - 1) = u ''nad''"
  show "suggest_fix sentence error_word = Inr (Some (error_word @ u ''vad''))"
    using suggest_fix_after_pronoun [of sentence error_word idx] idx p pronoun_entries
      pronouns_distinct
    by simp
qed

lemma suggest_literals:
  "u ''ma loe'' = [109, 97, 32, 108, 111, 101]"
  "u ''me loe'' = [109, 101, 32, 108, 111, 101]"
  "u ''te loe'' = [116, 101, 32, 108, 111, 101]"
  "u ''nad loe'' = [110, 97, 100, 32, 108, 111, 101]"
  "u ''loe'' = [108, 111, 101]"
  "u ''x'' = [120]"
  by (simp_all add: u_def)

lemma suggest_splits:
  "str_split (u ''ma loe'') = [u ''ma'', u ''loe'']"
  "str_split (u ''me loe'') = [u ''me'', u ''loe'']"
  "str_split (u ''te loe'') = [u ''te'', u ''loe'']"
  "str_split (u ''nad loe'') = [u ''nad'', u ''loe'']"
  by (simp_all add: str_split_def suggest_literals table_literals isspace_def)

lemma suggest_indexes:
  "list_index [u ''ma'', u ''loe''] (u ''loe'') = Inr 1"
  "list_index [u ''me'', u ''loe''] (u ''loe'') = Inr 1"
  "list_index [u ''te'', u ''loe''] (u ''loe'') = Inr 1"
  "list_index [u ''nad'', u ''loe''] (u ''loe'') = Inr 1"
  "u ''x'' \<noteq> u ''ma''" "u ''x'' \<noteq> u ''loe''"
  "\<not> endswith (u ''loe'') (u ''n'')"
  by (simp_all add: suggest_literals table_literals endswith_def)

theorem suggest_fix_appends_suffix_witness:
  "list_index (str_split (u ''ma loe'')) (u ''loe'') = Inr 1
   \<and> str_split (u ''ma loe'') ! 0 = u ''ma''
   \<and> \<not> endswith (u ''loe'') (u ''n'')
   \<and> suggest_fix (u ''ma loe'') (u ''loe'') = Inr (Some (u ''loe'' @ u ''n''))
   \<and> suggest_fix (u ''me loe'') (u ''loe'') = Inr (Some (u ''loe'' @ u ''me''))
   \<and> suggest_fix (u ''te loe'') (u ''loe'') = Inr (Some (u ''loe'' @ u ''te''))
   \<and> suggest_fix (u ''nad loe'') (u ''loe'') = Inr (Some (u ''loe'' @ u ''vad''))
   \<and> u ''x'' \<notin> set (str_split (u ''ma loe''))
   \<and> suggest_fix (u ''ma loe'') (u ''x'') = Inr None"
proof -
  have "suggest_fix (u ''ma loe'') (u ''loe'') = Inr (Some (u ''loe'' @ u ''n''))"
    using suggest_fix_appends_suffix [of "u ''ma loe''" "u ''loe''" 1]
    by (simp add: suggest_splits suggest_indexes del: list_index.simps)
  moreover have "suggest_fix (u ''me loe'') (u ''loe'') = Inr (Some (u ''loe'' @ u ''me''))"
    using suggest_fix_appends_suffix [of "u ''me loe''" "u ''loe''" 1]
    by (simp add: suggest_splits suggest_indexes del: list_index.simps)
  moreover have "suggest_fix (u ''te loe'') (u ''loe'') = Inr (Some (u ''loe'' @ u ''te''))"
    using suggest_fix_appends_suffix [of "u ''te loe''" "u ''loe''" 1]
    by (simp add: suggest_splits suggest_indexes del: list_index.simps)
  moreover have "suggest_fix (u ''nad loe'') (u ''loe'') = Inr (Some (u ''loe'' @ u ''vad''))"
    using suggest_fix_appends_suffix [of "u ''nad loe''" "u ''loe''" 1]
    by (simp add: suggest_splits suggest_indexes del: list_index.simps)
  moreover have "suggest_fix (u ''ma loe'') (u ''x'') = Inr None"
    using suggest_fix_appends_suffix [of "u ''ma loe''" "u ''x''" 0]
    by (simp add: suggest_splits suggest_indexes del: list_index.simps)
  ultimately show ?thesis
    by (simp add: suggest_splits suggest_indexes del: list_index.simps)
qed

lemma endswith_snoc:
  "endswith (ys @ [y]) [c] = (y = c)"
  "endswith (ys @ [y]) [c, c] = (y = c \<and> endswith ys [c])"
  "endswith [] [c] = False"
  by (auto simp: endswith_def Suc_diff_le)

lemma rstrip_simps:
  "rstrip [] cs = []"
  "rstrip (ys @ [y]) cs = (if y \<in> set cs then rstrip ys cs else ys @ [y])"
  by (simp_all add: rstrip_def)

lemma rstrip_keeps: "\<not> endswith w [c] \<Longrightarrow> rstrip w [c] = w"
  by (cases w rule: rev_cases) (simp_all add: rstrip_simps endswith_snoc)

lemma rstrip_single:
  "\<not> endswith w [c, c] \<Longrightarrow> rstrip w [c] = (if endswith w [c] then butlast w else w)"
  by (cases w rule: rev_cases) (simp_all add: rstrip_simps endswith_snoc rstrip_keeps)

lemma strip_literals:
  "u ''nn'' = [110, 110]" "u ''dd'' = [100, 100]"
  "u ''ta loedn'' = [116, 97, 32, 108, 111, 101, 100, 110]"
  "u ''loedn'' = [108, 111, 101, 100, 110]"
  "u ''loed'' = [108, 111, 101, 100]"
  "u ''ta linn'' = [116, 97, 32, 108, 105, 110, 110]"
  "u ''linn'' = [108, 105, 110, 110]"
  "u ''li'' = [108, 105]"
  by (simp_all add: u_def)

lemma suggest_fix_after_ta:
  assumes "list_index (str_split sentence) error_word = Inr idx" "0 < idx"
    and "str_split sentence ! (idx - 1) = u ''ta''"
  shows "suggest_fix sentence error_word
     = Inr (Some (rstrip (rstrip error_word (u ''n'')) (u ''d'')))"
  using suggest_fix_after_pronoun [of sentence error_word idx] assms pronoun_entries
    pronouns_distinct
  by simp

lemma split_ta_loedn: "str_split (u ''ta loedn'') = [u ''ta'', u ''loedn'']"
  by (simp add: str_split_def strip_literals table_literals isspace_def)

lemma index_ta_loedn: "list_index [u ''ta'', u ''loedn''] (u ''loedn'') = Inr 1"
  by (simp add: strip_literals table_literals)

lemma run_ta_loedn: "suggest_fix (u ''ta loedn'') (u ''loedn'') = Inr (Some (u ''loe''))"
proof -
  have "rstrip (rstrip (u ''loedn'') (u ''n'')) (u ''d'') = u ''loe''"
    by (simp add: rstrip_def strip_literals suggest_literals table_literals)
  with suggest_fix_after_ta [of "u ''ta loedn''" "u ''loedn''" 1] show ?thesis
    by (simp add: split_ta_loedn index_ta_loedn del: list_index.simps)
qed

text \<open>
  C4, as stated, does not hold: after \<open>ta\<close>, the word \<open>loedn\<close> ends in the suffix
  \<open>n\<close>, and removing that one suffix would give \<open>loed\<close>; \<open>suggest_fix\<close> returns
  \<open>loe\<close>, since \<open>rstrip('n')\<close> is followed by \<open>rstrip('d')\<close>.
\<close>

theorem suggest_fix_ta_removes_two_suffixes:
  "list_index (str_split (u ''ta loedn'')) (u ''loedn'') = Inr 1
   \<and> str_split (u ''ta loedn'') ! 0 = u ''ta''
   \<and> endswith (u ''loedn'') (u ''n'')
   \<and> butlast (u ''loedn'') = u ''loed''
   \<and> suggest_fix (u ''ta loedn'') (u ''loedn'') = Inr (Some (u ''loe''))
   \<and> suggest_fix (u ''ta loedn'') (u ''loedn'') \<noteq> Inr (Some (butlast (u ''loedn'')))"
  unfolding run_ta_loedn split_ta_loedn index_ta_loedn
  by (simp add: endswith_def strip_literals suggest_literals table_literals)

text \<open>
  C4, amended. After \<open>ta\<close>, \<open>suggest_fix\<close> removes a trailing \<open>n\<close> when there is one
  and then a trailing \<open>d\<close> when what is left has one (both, from a word in \<open>dn\<close>), and
  returns \<open>error_word\<close> unchanged when neither is there. This is stated for a word in
  which the removed letter is not doubled: \<open>error_word\<close> does not end in \<open>nn\<close>, and
  \<open>error_word\<close> less its \<open>n\<close> does not end in \<open>dd\<close>.
\<close>

theorem suggest_fix_ta_strips_n_then_d:
  "(let w1 = (if endswith error_word (u ''n'') then butlast error_word else error_word);
        w2 = (if endswith w1 (u ''d'') then butlast w1 else w1)
    in list_index (str_split sentence) error_word = Inr idx \<and> 0 < idx
         \<and> str_split sentence ! (idx - 1) = u ''ta''
         \<and> \<not> endswith error_word (u ''nn'') \<and> \<not> endswith w1 (u ''dd'')
       \<longrightarrow> suggest_fix sentence error_word = Inr (Some w2))"
proof -
  have "suggest_fix sentence error_word
      = Inr (Some (if endswith (if endswith error_word (u ''n'') then butlast error_word
                                else error_word) (u ''d'')
                   then butlast (if endswith error_word (u ''n'') then butlast error_word
                                 else error_word)
                   else (if endswith error_word (u ''n'') then butlast error_word
                         else error_word)))"
    if idx: "list_index (str_split sentence) error_word = Inr idx" "0 < idx"
      "str_split sentence ! (idx - 1) = u ''ta''"
    and nn: "\<not> endswith error_word (u ''nn'')"
    and dd: "\<not> endswith (if endswith error_word (u ''n'') then butlast error_word
                           else error_word) (u ''dd'')"
  proof -
    have n: "rstrip error_word (u ''n'')
        = (if endswith error_word (u ''n'') then butlast error_word else error_word)"
      using nn rstrip_single [of error_word 110] by (simp add: table_literals strip_literals)
    have d: "rstrip (rstrip error_word (u ''n'')) (u ''d'')
        = (if endswith (rstrip error_word (u ''n'')) (u ''d'')
           then butlast (rstrip error_word (u ''n'')) else rstrip error_word (u ''n''))"
      using dd rstrip_single [of "rstrip error_word (u ''n'')" 100] unfolding n
      by (simp add: table_literals strip_literals)
    show ?thesis
      unfolding suggest_fix_after_ta [OF idx] d unfolding n by (rule refl)
  qed
  then show ?thesis unfolding Let_def by blast
qed

theorem suggest_fix_ta_strips_n_then_d_witness:
  "list_index (str_split (u ''ta loedn'')) (u ''loedn'') = Inr 1
   \<and> str_split (u ''ta loedn'') ! 0 = u ''ta''
   \<and> \<not> endswith (u ''loedn'') (u ''nn'')
   \<and> endswith (u ''loedn'') (u ''n'')
   \<and> \<not> endswith (butlast (u ''loedn'')) (u ''dd'')
   \<and> endswith (butlast (u ''loedn'')) (u ''d'')
   \<and> suggest_fix (u ''ta loedn'') (u ''loedn'') = Inr (Some (butlast (butlast (u ''loedn''))))"
proof -
  have facts: "\<not> endswith (u ''loedn'') (u ''nn'')" "endswith (u ''loedn'') (u ''n'')"
      "\<not> endswith (butlast (u ''loedn'')) (u ''dd'')"
      "endswith (butlast (u ''loedn'')) (u ''d'')"
    by (simp_all add: endswith_def strip_literals table_literals)
  from suggest_fix_ta_strips_n_then_d [of "u ''loedn''" "u ''ta loedn''" 1] facts
  have "suggest_fix (u ''ta loedn'') (u ''loedn'')
      = Inr (Some (butlast (butlast (u ''loedn''))))"
    by (simp add: split_ta_loedn index_ta_loedn Let_def del: list_index.simps)
  with facts show ?thesis
    by (simp add: split_ta_loedn index_ta_loedn del: list_index.simps)
qed

text \<open>
  On a doubled letter \<open>rstrip\<close> removes the whole run: \<open>linn\<close> after \<open>ta\<close> gives
  \<open>li\<close>.
\<close>

lemma suggest_fix_ta_linn:
  "suggest_fix (u ''ta linn'') (u ''linn'') = Inr (Some (u ''li''))"
proof -
  have split: "str_split (u ''ta linn'') = [u ''ta'', u ''linn'']"
    by (simp add: str_split_def strip_literals table_literals isspace_def)
  have index: "list_index [u ''ta'', u ''linn''] (u ''linn'') = Inr 1"
    by (simp add: strip_literals table_literals)
  have "rstrip (rstrip (u ''linn'') (u ''n'')) (u ''d'') = u ''li''"
    by (simp add: rstrip_def strip_literals table_literals)
  with suggest_fix_after_ta [of "u ''ta linn''" "u ''linn''" 1] show ?thesis
    by (simp add: split index del: list_index.simps)
qed

section \<open>Properties of analyze\_error\_detection\_quiz\<close>

text \<open>
  What the pattern finds: \<open>search_quoted\<close> returns a segment exactly when the text
  holds an apostrophe, one or more characters other than an apostrophe, and an
  apostrophe.
\<close>

lemma search_quoted_Some:
  "search_quoted t = Some b \<Longrightarrow>
     \<exists>pre post. t = pre @ 39 # b @ 39 # post \<and> b \<noteq> [] \<and> 39 \<notin> set b"
proof (induction t)
  case Nil
  then show ?case by simp
next
  case (Cons c cs)
  let ?body = "takeWhile (\<lambda>x. x \<noteq> 39) cs" and ?rest = "dropWhile (\<lambda>x. x \<noteq> 39) cs"
  show ?case
  proof (cases "c = 39 \<and> ?body \<noteq> [] \<and> ?rest \<noteq> []")
    case True
    with Cons.prems have b: "b = ?body" by (simp add: Let_def)
    from True have "hd ?rest = 39"
      using hd_dropWhile [of "\<lambda>x. x \<noteq> 39" cs] by simp
    with True obtain post where rest: "?rest = 39 # post"
      by (cases ?rest) simp_all
    have "cs = ?body @ ?rest" by simp
    with rest have "c # cs = [] @ 39 # ?body @ 39 # post" using True by simp
    moreover have "39 \<notin> set ?body" by (auto dest: set_takeWhileD)
    ultimately show ?thesis using True b by blast
  next
    case False
    with Cons.prems have "search_quoted cs = Some b"
      by (auto simp: Let_def split: if_splits)
    from Cons.IH [OF this] obtain pre post where
      "cs = pre @ 39 # b @ 39 # post" "b \<noteq> []" "39 \<notin> set b" by blast
    then have "c # cs = (c # pre) @ 39 # b @ 39 # post" by simp
    with \<open>b \<noteq> []\<close> \<open>39 \<notin> set b\<close> show ?thesis by blast
  qed
qed

lemma search_quoted_finds:
  "b \<noteq> [] \<Longrightarrow> 39 \<notin> set b \<Longrightarrow> search_quoted (pre @ 39 # b @ 39 # post) \<noteq> None"
proof (induction pre)
  case Nil
  then have other: "x \<noteq> 39" if "x \<in> set b" for x
    using that by auto
  have "takeWhile (\<lambda>x. x \<noteq> 39) (b @ 39 # post) = b"
    "dropWhile (\<lambda>x. x \<noteq> 39) (b @ 39 # post) = 39 # post"
    using other by (simp_all add: takeWhile_append2 dropWhile_append2)
  with Nil show ?case by (simp add: Let_def)
next
  case (Cons c pre)
  then show ?case by (simp add: Let_def)
qed

lemma search_quoted_iff:
  "(search_quoted t \<noteq> None) =
     (\<exists>pre b post. t = pre @ 39 # b @ 39 # post \<and> b \<noteq> [] \<and> 39 \<notin> set b)"
proof
  assume "search_quoted t \<noteq> None"
  then obtain b where "search_quoted t = Some b" by auto
  from search_quoted_Some [OF this] show
    "\<exists>pre b post. t = pre @ 39 # b @ 39 # post \<and> b \<noteq> [] \<and> 39 \<notin> set b"
    by blast
next
  assume "\<exists>pre b post. t = pre @ 39 # b @ 39 # post \<and> b \<noteq> [] \<and> 39 \<notin> set b"
  then obtain pre b post where "t = pre @ 39 # b @ 39 # post" "b \<noteq> []" "39 \<notin> set b"
    by blast
  then show "search_quoted t \<noteq> None"
    using search_quoted_finds [of b pre post] by simp
qed

lemma validate_single_error_returns:
  "\<exists>v. validate_single_error lower sentence error_word explanation = Inr v"
  using validate_single_error_findings [of lower sentence error_word explanation] by blast

lemma questions_loop_skips:
  "no_quoted_segment q \<Longrightarrow>
     questions_loop lower (q # rest) results = questions_loop lower rest results"
  by (auto simp: no_quoted_segment_def dict_getitem_def split: option.splits)

lemma questions_loop_keeps:
  assumes "has_quoted_segment q" "q (u ''correctAnswer'') \<noteq> None" "q (u ''explanation'') \<noteq> None"
  shows "\<exists>d. questions_loop lower (q # rest) results = questions_loop lower rest (results @ [d])
     \<and> Some (d_question d) = q (u ''question'')
     \<and> Some (d_sentence d) = search_quoted (d_question d)
     \<and> Some (d_error_word d) = q (u ''correctAnswer'')
     \<and> (\<exists>e. q (u ''explanation'') = Some e
          \<and> validate_single_error lower (d_sentence d) (d_error_word d) e
              = Inr (d_validation d))"
proof -
  from assms obtain t s w e where
    fields: "q (u ''question'') = Some t" "search_quoted t = Some s"
      "q (u ''correctAnswer'') = Some w" "q (u ''explanation'') = Some e"
    by (auto simp: has_quoted_segment_def split: option.splits)
  obtain v where v: "validate_single_error lower s w e = Inr v"
    using validate_single_error_returns by blast
  let ?d = "\<lparr>d_question = t, d_sentence = s, d_error_word = w, d_validation = v\<rparr>"
  have "questions_loop lower (q # rest) results = questions_loop lower rest (results @ [?d])"
    using fields v by (simp add: dict_getitem_def)
  then show ?thesis using fields v by (intro exI [of _ ?d]) simp
qed

lemma questions_loop_results:
  "list_all readable qs \<Longrightarrow>
   \<exists>new. questions_loop lower qs results = Inr (results @ new)
     \<and> map (\<lambda>d. Some (d_question d)) new
         = map (\<lambda>q. q (u ''question'')) (filter has_quoted_segment qs)
     \<and> list_all (\<lambda>d. Some (d_sentence d) = search_quoted (d_question d)) new"
proof (induction qs arbitrary: results)
  case Nil
  then show ?case by simp
next
  case (Cons q qs)
  from Cons.prems have rest: "list_all readable qs" and q: "readable q" by simp_all
  show ?case
  proof (cases "no_quoted_segment q")
    case True
    then have not_has: "\<not> has_quoted_segment q"
      by (auto simp: no_quoted_segment_def has_quoted_segment_def split: option.splits)
    from Cons.IH [OF rest, of results] obtain new where
      "questions_loop lower qs results = Inr (results @ new)"
      "map (\<lambda>d. Some (d_question d)) new
         = map (\<lambda>q. q (u ''question'')) (filter has_quoted_segment qs)"
      "list_all (\<lambda>d. Some (d_sentence d) = search_quoted (d_question d)) new"
      by blast
    then show ?thesis using questions_loop_skips [OF True] not_has
      by (intro exI [of _ new]) simp
  next
    case False
    with q have has: "has_quoted_segment q" and
      fields: "q (u ''correctAnswer'') \<noteq> None" "q (u ''explanation'') \<noteq> None"
      by (simp_all add: readable_def)
    from questions_loop_keeps [OF has fields, of lower qs results] obtain d where
      step: "questions_loop lower (q # qs) results = questions_loop lower qs (results @ [d])"
      and d: "Some (d_question d) = q (u ''question'')"
        "Some (d_sentence d) = search_quoted (d_question d)"
      by blast
    from Cons.IH [OF rest, of "results @ [d]"] obtain new where
      "questions_loop lower qs (results @ [d]) = Inr ((results @ [d]) @ new)"
      "map (\<lambda>d. Some (d_question d)) new
         = map (\<lambda>q. q (u ''question'')) (filter has_quoted_segment qs)"
      "list_all (\<lambda>d. Some (d_sentence d) = search_quoted (d_question d)) new"
      by blast
    then show ?thesis using step d has
      by (intro exI [of _ "d # new"]) simp
  qed
qed

text \<open>
  C7. For a quiz whose records have the fields the loop reads, a record whose question
  text has no single-quoted segment adds no entry to \<open>details\<close> and is not counted:
  \<open>total_questions\<close> is the number of records whose question text has such a segment,
  and \<open>details\<close> holds one entry for each of them, in order, with that record's
  question text.
\<close>

theorem unquoted_questions_not_counted:
  "(let qs = dict_get quiz_data (u ''questions'') [] in
    list_all readable qs \<longrightarrow>
     (\<exists>r. analyze_error_detection_quiz lower quiz_data = Inr r
        \<and> total_questions r = int (length (filter has_quoted_segment qs))
        \<and> map (\<lambda>d. Some (d_question d)) (details r)
            = map (\<lambda>q. q (u ''question'')) (filter has_quoted_segment qs)))"
proof -
  define qs where "qs = dict_get quiz_data (u ''questions'') []"
  have "\<exists>r. analyze_error_detection_quiz lower quiz_data = Inr r
        \<and> total_questions r = int (length (filter has_quoted_segment qs))
        \<and> map (\<lambda>d. Some (d_question d)) (details r)
            = map (\<lambda>q. q (u ''question'')) (filter has_quoted_segment qs)"
    if a: "list_all readable qs"
  proof -
    from a obtain new where
      run: "questions_loop lower qs [] = Inr ([] @ new)" and
      new: "map (\<lambda>d. Some (d_question d)) new
           = map (\<lambda>q. q (u ''question'')) (filter has_quoted_segment qs)"
      using questions_loop_results [of qs lower "[]"] by blast
    from new have "length new = length (filter has_quoted_segment qs)"
      by (metis length_map)
    with run new show ?thesis
      by (simp add: analyze_error_detection_quiz_def Let_def qs_def [symmetric])
  qed
  then show ?thesis unfolding Let_def qs_def by blast
qed

lemma quiz_literals:
  "u ''questions'' = [113, 117, 101, 115, 116, 105, 111, 110, 115]"
  "u ''question'' = [113, 117, 101, 115, 116, 105, 111, 110]"
  "u ''correctAnswer'' = [99, 111, 114, 114, 101, 99, 116, 65, 110, 115, 119, 101, 114]"
  "u ''explanation'' = [101, 120, 112, 108, 97, 110, 97, 116, 105, 111, 110]"
  "u ''Leia viga: '' = [76, 101, 105, 97, 32, 118, 105, 103, 97, 58, 32]"
  "u ''ma loed'' = [109, 97, 32, 108, 111, 101, 100]"
  "u ''Leia viga'' = [76, 101, 105, 97, 32, 118, 105, 103, 97]"
  by (simp_all add: u_def)

lemma quoted_example:
  "search_quoted (u ''Leia viga: '' @ 39 # u ''ma loed'' @ [39]) = Some (u ''ma loed'')"
  "search_quoted (u ''Leia viga'') = None"
  by (simp_all add: quiz_literals)

lemma quoted_record:
  "has_quoted_segment
     [u ''question'' \<mapsto> u ''Leia viga: '' @ 39 # u ''ma loed'' @ [39],
      u ''correctAnswer'' \<mapsto> u ''loed'', u ''explanation'' \<mapsto> u ''verb'']"
  "readable
     [u ''question'' \<mapsto> u ''Leia viga: '' @ 39 # u ''ma loed'' @ [39],
      u ''correctAnswer'' \<mapsto> u ''loed'', u ''explanation'' \<mapsto> u ''verb'']"
proof -
  have keys: "u ''question'' \<noteq> u ''correctAnswer''" "u ''question'' \<noteq> u ''explanation''"
    "u ''correctAnswer'' \<noteq> u ''explanation''"
    by (simp_all add: quiz_literals)
  show "has_quoted_segment
     [u ''question'' \<mapsto> u ''Leia viga: '' @ 39 # u ''ma loed'' @ [39],
      u ''correctAnswer'' \<mapsto> u ''loed'', u ''explanation'' \<mapsto> u ''verb'']"
    using keys by (simp add: has_quoted_segment_def quoted_example)
  then show "readable
     [u ''question'' \<mapsto> u ''Leia viga: '' @ 39 # u ''ma loed'' @ [39],
      u ''correctAnswer'' \<mapsto> u ''loed'', u ''explanation'' \<mapsto> u ''verb'']"
    using keys by (simp add: readable_def)
qed

lemma unquoted_record:
  "no_quoted_segment [u ''question'' \<mapsto> u ''Leia viga'']"
  "\<not> has_quoted_segment [u ''question'' \<mapsto> u ''Leia viga'']"
  "readable [u ''question'' \<mapsto> u ''Leia viga'']"
  by (simp_all add: no_quoted_segment_def has_quoted_segment_def readable_def quoted_example)

theorem unquoted_questions_not_counted_witness:
  "list_all readable
     [[u ''question'' \<mapsto> u ''Leia viga''],
      [u ''question'' \<mapsto> u ''Leia viga: '' @ 39 # u ''ma loed'' @ [39],
       u ''correctAnswer'' \<mapsto> u ''loed'', u ''explanation'' \<mapsto> u ''verb'']]
   \<and> (\<exists>r. analyze_error_detection_quiz lower_ascii
          [u ''questions'' \<mapsto>
            [[u ''question'' \<mapsto> u ''Leia viga''],
             [u ''question'' \<mapsto> u ''Leia viga: '' @ 39 # u ''ma loed'' @ [39],
              u ''correctAnswer'' \<mapsto> u ''loed'', u ''explanation'' \<mapsto> u ''verb'']]]
          = Inr r
        \<and> total_questions r = 1
        \<and> map d_question (details r) = [u ''Leia viga: '' @ 39 # u ''ma loed'' @ [39]])"
proof -
  define q1 :: question where "q1 = [u ''question'' \<mapsto> u ''Leia viga'']"
  define q2 :: question where
    "q2 = [u ''question'' \<mapsto> u ''Leia viga: '' @ 39 # u ''ma loed'' @ [39],
           u ''correctAnswer'' \<mapsto> u ''loed'', u ''explanation'' \<mapsto> u ''verb'']"
  define quiz_data :: quiz where "quiz_data = [u ''questions'' \<mapsto> [q1, q2]]"
  have q1: "readable q1" "\<not> has_quoted_segment q1"
    unfolding q1_def using unquoted_record by simp_all
  have q2: "readable q2" "has_quoted_segment q2"
    unfolding q2_def using quoted_record by simp_all
  have qtext: "q2 (u ''question'') = Some (u ''Leia viga: '' @ 39 # u ''ma loed'' @ [39])"
    unfolding q2_def by (simp add: quiz_literals)
  have all: "list_all readable [q1, q2]"
    using q1 q2 by simp
  have sel: "filter has_quoted_segment [q1, q2] = [q2]"
    using q1 q2 by simp
  have lookup: "dict_get quiz_data (u ''questions'') [] = [q1, q2]"
    unfolding quiz_data_def by (simp add: dict_get_def)
  from all have "list_all readable (dict_get quiz_data (u ''questions'') [])"
    unfolding lookup .
  from unquoted_questions_not_counted [of quiz_data lower_ascii, unfolded Let_def, THEN mp,
     OF this, unfolded lookup]
  obtain r where
    run: "analyze_error_detection_quiz lower_ascii quiz_data = Inr r"
    and total: "total_questions r = int (length (filter has_quoted_segment [q1, q2]))"
    and qs: "map (\<lambda>d. Some (d_question d)) (details r)
            = map (\<lambda>q. q (u ''question'')) (filter has_quoted_segment [q1, q2])"
    by (elim exE conjE)
  from qs have "map (\<lambda>d. Some (d_question d)) (details r)
      = [Some (u ''Leia viga: '' @ 39 # u ''ma loed'' @ [39])]"
    unfolding sel using qtext by simp
  then have "map d_question (details r) = [u ''Leia viga: '' @ 39 # u ''ma loed'' @ [39]]"
    by (simp add: map_eq_Cons_conv)
  moreover from total have "total_questions r = 1" unfolding sel by simp
  ultimately have "\<exists>r. analyze_error_detection_quiz lower_ascii quiz_data = Inr r
      \<and> total_questions r = 1
      \<and> map d_question (details r) = [u ''Leia viga: '' @ 39 # u ''ma loed'' @ [39]]"
    using run by (intro exI [of _ r] conjI)
  with all show ?thesis
    unfolding quiz_data_def q1_def q2_def by (rule conjI)
qed

lemma questions_loop_all_skipped:
  "list_all no_quoted_segment qs \<Longrightarrow> questions_loop lower qs results = Inr results"
proof (induction qs)
  case Nil
  then show ?case by simp
next
  case (Cons q qs)
  then show ?case using questions_loop_skips [of q lower qs results] by simp
qed

text \<open>
  C10. When \<open>quiz_data\<close> has no key \<open>questions\<close> (\<open>get\<close> then gives the empty
  list), or its list is empty, or every
  record of the list has a question text with no single-quoted segment, the result has
  \<open>total_questions\<close>, \<open>valid_questions\<close> and \<open>invalid_questions\<close> 0, no
  \<open>details\<close>, and \<open>all_valid\<close> true.
\<close>

theorem empty_quiz_result:
  "list_all no_quoted_segment (dict_get quiz_data (u ''questions'') []) \<longrightarrow>
   analyze_error_detection_quiz lower quiz_data
     = Inr \<lparr>total_questions = 0, valid_questions = 0, invalid_questions = 0,
            details = [], all_valid = True\<rparr>"
  by (simp add: analyze_error_detection_quiz_def questions_loop_all_skipped)

theorem empty_quiz_result_witness:
  "analyze_error_detection_quiz lower_ascii Map.empty
     = Inr \<lparr>total_questions = 0, valid_questions = 0, invalid_questions = 0,
            details = [], all_valid = True\<rparr>
   \<and> analyze_error_detection_quiz lower_ascii [u ''questions'' \<mapsto> []]
     = Inr \<lparr>total_questions = 0, valid_questions = 0, invalid_questions = 0,
            details = [], all_valid = True\<rparr>
   \<and> no_quoted_segment [u ''question'' \<mapsto> u ''Leia viga'']
   \<and> analyze_error_detection_quiz lower_ascii
       [u ''questions'' \<mapsto> [[u ''question'' \<mapsto> u ''Leia viga'']]]
     = Inr \<lparr>total_questions = 0, valid_questions = 0, invalid_questions = 0,
            details = [], all_valid = True\<rparr>"
  using empty_quiz_result [of Map.empty lower_ascii]
    empty_quiz_result [of "[u ''questions'' \<mapsto> []]" lower_ascii]
    empty_quiz_result [of "[u ''questions'' \<mapsto> [[u ''question'' \<mapsto> u ''Leia viga'']]]"
      lower_ascii]
    unquoted_record
  by (simp add: dict_get_def)

section \<open>Verdicts at each weight\<close>

text \<open>
  Verdicts with \<open>error_count\<close> 1, 2 and 3: only the first is valid. (With no token
  \<open>error_count\<close> is 0.)
\<close>

lemma run_ma_loed:
  "validate_single_error lower (u ''ma loed'') (u ''x'') explanation
     = Inr (verdict_of (1, [VerbAgreement (u ''loed'') 1]))"
proof -
  have lits: "u ''ma loed'' = [109, 97, 32, 108, 111, 101, 100]"
    "u ''loed'' = [108, 111, 101, 100]" "u ''x'' = [120]"
    by (simp_all add: u_def)
  have split: "str_split (u ''ma loed'') = [u ''ma'', u ''loed'']"
    by (simp add: str_split_def lits table_literals isspace_def)
  have verb: "verb_agreement_loop [u ''ma'', u ''loed''] (enumerate 0 [u ''ma'', u ''loed''])
      (0, []) = Inr (1, [VerbAgreement (u ''loed'') 1])"
    by (simp add: getitem_def check_verb_agreement_def dict_contains_def dict_getitem_def
        pronoun_verb_agreement_def endswith_def table_literals lits o_stroke_def)
  have range: "[0..<nat (int (length [u ''ma'', u ''loed'']) - 1)] = [0]"
    by (simp add: upt_rec)
  have pair: "case_agreement_loop [u ''ma'', u ''loed''] [0] (1, [VerbAgreement (u ''loed'') 1])
      = Inr (1, [VerbAgreement (u ''loed'') 1])"
    by (simp add: getitem_def is_adjective_noun_pair_def adj_endings_def endswith_def
        table_literals lits)
  have absent: "u ''x'' \<notin> set [u ''ma'', u ''loed'']"
    by (simp add: table_literals lits)
  show ?thesis
    unfolding validate_single_error_def split Let_def verb range bind_Inr pair
    using absent by (simp add: case_error_check_def)
qed

lemma verdict_examples:
  "\<exists>v. validate_single_error lower (u ''ma loed'') (u ''x'') explanation = Inr v
      \<and> error_count v = 1 \<and> valid v"
  "\<exists>v. validate_single_error lower_ascii (u ''ma '' @ naed @ u '' raamatut'') naed
        (u ''peab olema partitiiv'') = Inr v
      \<and> error_count v = 2 \<and> \<not> valid v"
  "\<exists>v. validate_single_error lower (u ''ma punane majas'') (u ''x'') explanation = Inr v
      \<and> error_count v = 3 \<and> \<not> valid v"
  unfolding run_ma_loed scenario_with_ascii_lower run_ma_punane_majas by simp_all

end
